theory Spec2Isabelle
  imports Main "HOL-Library.Multiset"
begin

section \<open>Command line: \<open>ParseFlags\<close> (search.go, lines 12-56)\<close>

text \<open>
  The Go struct \<open>Options\<close>. A fresh \<open>var opts Options\<close> holds the zero value of
  every field.
\<close>

record Options =
  isFileOnly :: bool
  isDirOnly :: bool
  isCaseSensitive :: bool
  directory :: string
  pattern :: string

definition zero_Options :: Options where
  "zero_Options =
     \<lparr>isFileOnly = False, isDirOnly = False, isCaseSensitive = False,
      directory = [], pattern = []\<rparr>"

text \<open>
  What a call of \<open>ParseFlags\<close> can end in: it returns options, it returns an error
  (\<open>fmt.Errorf\<close> with the given message), it prints the usage text for the program name
  and leaves the process with \<open>os.Exit(0)\<close>, or it panics on \<open>args[0]\<close> of an empty
  slice.
\<close>

datatype parse_result =
    Parsed Options
  | ParseError string
  | HelpExit string
  | IndexPanic

text \<open>The \<open>case\<close> labels of the \<open>switch\<close> over one argument.\<close>

definition is_file_flag :: "string \<Rightarrow> bool" where
  "is_file_flag arg = (arg = ''-f'' \<or> arg = ''--file'')"

definition is_dir_flag :: "string \<Rightarrow> bool" where
  "is_dir_flag arg = (arg = ''-d'' \<or> arg = ''--dir'')"

definition is_case_flag :: "string \<Rightarrow> bool" where
  "is_case_flag arg = (arg = ''-c'' \<or> arg = ''--casesensitive'')"

definition is_help_flag :: "string \<Rightarrow> bool" where
  "is_help_flag arg = (arg = ''-h'' \<or> arg = ''--help'')"

text \<open>
  The \<open>for _, arg := range args\<close> loop with its \<open>switch\<close>. The state of the loop is
  \<open>opts\<close> and \<open>positionalArgs\<close>; \<open>None\<close> is the help branch, which leaves the
  process inside the loop.
\<close>

fun parse_loop :: "string list \<Rightarrow> Options \<Rightarrow> string list \<Rightarrow> (Options \<times> string list) option" where
  "parse_loop [] opts positionalArgs = Some (opts, positionalArgs)"
| "parse_loop (arg # args) opts positionalArgs =
     (if is_file_flag arg then parse_loop args (opts\<lparr>isFileOnly := True\<rparr>) positionalArgs
      else if is_dir_flag arg then parse_loop args (opts\<lparr>isDirOnly := True\<rparr>) positionalArgs
      else if is_case_flag arg then
        parse_loop args (opts\<lparr>isCaseSensitive := True\<rparr>) positionalArgs
      else if is_help_flag arg then None
      else parse_loop args opts (positionalArgs @ [arg]))"

definition invalid_positional :: string where
  "invalid_positional = ''invalid number of positional arguments''"

definition both_type_flags :: string where
  "both_type_flags = ''you cannot use both --fileonly and --dironly at the same time''"

definition ParseFlags :: "string list \<Rightarrow> parse_result" where
  "ParseFlags args =
     (case args of
        [] \<Rightarrow> IndexPanic
      | program # rest \<Rightarrow>
          (case parse_loop rest zero_Options [] of
             None \<Rightarrow> HelpExit program
           | Some (opts, positionalArgs) \<Rightarrow>
               if length positionalArgs \<noteq> 2 then ParseError invalid_positional
               else
                 let opts1 = opts\<lparr>directory := positionalArgs ! 0,
                                   pattern := positionalArgs ! 1\<rparr>
                 in if isFileOnly opts1 \<and> isDirOnly opts1 then ParseError both_type_flags
                    else Parsed opts1))"

text \<open>A token that no \<open>case\<close> label takes reaches the \<open>default\<close> branch.\<close>

definition is_positional :: "string \<Rightarrow> bool" where
  "is_positional arg =
     (\<not> is_file_flag arg \<and> \<not> is_dir_flag arg \<and> \<not> is_case_flag arg \<and> \<not> is_help_flag arg)"

definition positionals :: "string list \<Rightarrow> string list" where
  "positionals args = filter is_positional args"

definition has_flag :: "(string \<Rightarrow> bool) \<Rightarrow> string list \<Rightarrow> bool" where
  "has_flag f args = list_ex f args"

section \<open>The file system and \<open>filepath.WalkDir\<close>\<close>

text \<open>
  Go errors as values. \<open>PathError op path cause\<close> is \<open>*os.PathError\<close>; its cause is a
  \<open>syscall.Errno\<close> or some other error. \<open>SkipDir\<close> and \<open>SkipAll\<close> are the sentinel
  errors of \<open>io/fs\<close>, \<open>ErrBadPattern\<close> the one of \<open>path/filepath\<close>. A Go \<open>error\<close> that
  may be \<open>nil\<close> is an \<open>error option\<close>.
\<close>

datatype cause = Errno nat | OtherCause string

datatype error = PathError string string cause | ErrorString string
  | SkipDir | SkipAll | ErrBadPattern

definition ERROR_ACCESS_DENIED :: nat where
  "ERROR_ACCESS_DENIED = 5"

text \<open>
  A directory tree as the traversal reads it. \<open>Dir name err entries\<close> is a directory for
  which \<open>os.ReadDir\<close> returns \<open>entries\<close> (all of them, or the ones read before a
  failure) and the error \<open>err\<close>.
\<close>

datatype DirEntry = File string | Dir string "error option" "DirEntry list"

fun Name :: "DirEntry \<Rightarrow> string" where
  "Name (File name) = name"
| "Name (Dir name err entries) = name"

fun IsDir :: "DirEntry \<Rightarrow> bool" where
  "IsDir (File name) = False"
| "IsDir (Dir name err entries) = True"

text \<open>
  The library functions \<open>Search\<close> calls and the repository does not define:
  \<open>os.Lstat\<close> of a root path (an error, or the tree found there), \<open>filepath.Join\<close>,
  \<open>filepath.Base\<close>, \<open>strings.ToLower\<close> and \<open>filepath.Match\<close> (the pattern first).
  They are parameters of the model.
\<close>

record platform =
  Lstat :: "string \<Rightarrow> error + DirEntry"
  Join :: "string \<Rightarrow> string \<Rightarrow> string"
  Base :: "string \<Rightarrow> string"
  ToLower :: "string \<Rightarrow> string"
  Match :: "string \<Rightarrow> string \<Rightarrow> bool \<times> error option"

text \<open>
  What \<open>WalkDir\<close> passes to its function besides the path: an entry with a \<open>nil\<close>
  error, or an error together with the entry it belongs to (\<open>nil\<close> when \<open>Lstat\<close> of the
  root failed). \<open>WalkDir\<close> never passes a \<open>nil\<close> entry with a \<open>nil\<close> error.
\<close>

datatype visit = Entry DirEntry | Failed "DirEntry option" error

text \<open>
  \<open>filepath.WalkDir\<close> and its \<open>walkDir\<close>, after the Go library: the function is called
  on an entry before its directory is read; a failed \<open>ReadDir\<close> is reported by a second
  call, and the entries it did return are still walked; an error other than \<open>nil\<close> ends
  the walk, \<open>SkipDir\<close> only the directory at hand. The state \<open>'s\<close> is what the function
  changes outside itself.
\<close>

fun walkDir :: "platform \<Rightarrow> ('s \<Rightarrow> string \<Rightarrow> visit \<Rightarrow> error option \<times> 's) \<Rightarrow> string \<Rightarrow> DirEntry \<Rightarrow> 's
    \<Rightarrow> error option \<times> 's"
  and walkDirs :: "platform \<Rightarrow> ('s \<Rightarrow> string \<Rightarrow> visit \<Rightarrow> error option \<times> 's) \<Rightarrow> string
    \<Rightarrow> DirEntry list \<Rightarrow> 's \<Rightarrow> error option \<times> 's" where
  "walkDir P fn path (File name) s = fn s path (Entry (File name))"
| "walkDir P fn path (Dir name rerr dirs) s =
     (case fn s path (Entry (Dir name rerr dirs)) of
        (err, s1) \<Rightarrow>
          if err \<noteq> None then (if err = Some SkipDir then None else err, s1)
          else
            (case rerr of
               None \<Rightarrow> walkDirs P fn path dirs s1
             | Some e \<Rightarrow>
                 (case fn s1 path (Failed (Some (Dir name rerr dirs)) e) of
                    (err2, s2) \<Rightarrow>
                      if err2 \<noteq> None then (if err2 = Some SkipDir then None else err2, s2)
                      else walkDirs P fn path dirs s2)))"
| "walkDirs P fn path [] s = (None, s)"
| "walkDirs P fn path (d1 # dirs) s =
     (case walkDir P fn (Join P path (Name d1)) d1 s of
        (err, s1) \<Rightarrow>
          if err \<noteq> None then (if err = Some SkipDir then None else err, s1)
          else walkDirs P fn path dirs s1)"

definition WalkDir :: "platform \<Rightarrow> string \<Rightarrow> ('s \<Rightarrow> string \<Rightarrow> visit \<Rightarrow> error option \<times> 's) \<Rightarrow> 's
    \<Rightarrow> error option \<times> 's" where
  "WalkDir P root fn s =
     (case (case Lstat P root of
              Inl e \<Rightarrow> fn s root (Failed None e)
            | Inr info \<Rightarrow> walkDir P fn root info s) of
        (err, s1) \<Rightarrow> if err = Some SkipDir \<or> err = Some SkipAll then (None, s1) else (err, s1))"


section \<open>\<open>Search\<close> (search.go, lines 58-113)\<close>

text \<open>
  What the program writes to standard output, one constructor for each \<open>Printf\<close> or
  \<open>Println\<close> of the source: the two \<open>Skipping:\<close> lines of \<open>Search\<close> (the first formats
  the path, the second the error), the usage text of \<open>displayHelp\<close> for a program name,
  and the lines of \<open>main\<close>.
\<close>

datatype printed =
    SkippingAccessDenied string
  | SkippingUnhandled error
  | UsageText string
  | ErrorLine string
  | SearchErrorLine error
  | NoPathMatches
  | FoundPaths
  | PathLine string

text \<open>
  The type assertions of lines 67-69: the error is a \<open>*os.PathError\<close> whose cause is the
  \<open>syscall.Errno\<close> \<open>ERROR_ACCESS_DENIED\<close>.
\<close>

definition is_access_denied :: "error \<Rightarrow> bool" where
  "is_access_denied err =
     (case err of
        PathError op p c \<Rightarrow> (case c of Errno errno \<Rightarrow> errno = ERROR_ACCESS_DENIED | OtherCause m \<Rightarrow> False)
      | ErrorString m \<Rightarrow> False
      | SkipDir \<Rightarrow> False
      | SkipAll \<Rightarrow> False
      | ErrBadPattern \<Rightarrow> False)"

text \<open>
  What the function literal passed to \<open>WalkDir\<close> changes: the lines printed so far, and
  the goroutines started so far, each by the path it was given (\<open>wg.Add(1)\<close> and the
  \<open>go\<close> statement; the goroutine never reads its \<open>d\<close>).
\<close>

record walk_state =
  stdout :: "printed list"
  spawned :: "string list"

text \<open>The function literal of lines 64-109. It returns \<open>nil\<close> on every path.\<close>

fun visit_fn :: "bool \<Rightarrow> bool \<Rightarrow> walk_state \<Rightarrow> string \<Rightarrow> visit \<Rightarrow> error option \<times> walk_state" where
  "visit_fn fileOnly dirOnly s path (Failed d err) =
     (if is_access_denied err then (None, s\<lparr>stdout := stdout s @ [SkippingAccessDenied path]\<rparr>)
      else (None, s\<lparr>stdout := stdout s @ [SkippingUnhandled err]\<rparr>))"
| "visit_fn fileOnly dirOnly s path (Entry d) =
     (if fileOnly \<and> IsDir d then (None, s)
      else if dirOnly \<and> \<not> IsDir d then (None, s)
      else (None, s\<lparr>spawned := spawned s @ [path]\<rparr>))"

text \<open>
  The goroutine of lines 89-106, cut at its accesses to what it shares with the other
  goroutines: the captured variable \<open>pattern\<close> of \<open>Search\<close>, the slice \<open>matches\<close> and the
  mutex \<open>mu\<close>. A goroutine is at one of these points:
  \<^item> \<open>Start\<close>: nothing done yet;
  \<^item> \<open>Lowered s\<close>: it has read \<open>pattern\<close> and holds \<open>s = strings.ToLower(pattern)\<close>, not
    yet assigned (line 97, right-hand side);
  \<^item> \<open>Ready\<close>: it is about to read \<open>pattern\<close> for \<open>filepath.Match\<close> (line 100);
  \<^item> \<open>Tested b\<close>: \<open>b\<close> is \<open>err == nil && matched\<close> (line 101);
  \<^item> \<open>Locked\<close>: \<open>mu.Lock()\<close> has returned (line 102);
  \<^item> \<open>Loaded ms\<close>: it has read \<open>matches\<close> as \<open>ms\<close> (line 103, right-hand side);
  \<^item> \<open>Stored\<close>: it has assigned \<open>append(ms, path)\<close> to \<open>matches\<close> (line 103);
  \<^item> \<open>Finished\<close>: it has returned, and \<open>wg.Done()\<close> has run.
\<close>

datatype pc = Start | Lowered string | Ready | Tested bool | Locked | Loaded "string list"
  | Stored | Finished

record goroutine =
  gpath :: string
  gpc :: pc

record shared =
  pattern_var :: string
  matches :: "string list"
  mu :: bool

text \<open>Lines 92-96: the local \<open>baseName\<close> handed to \<open>filepath.Match\<close>.\<close>

definition baseName :: "platform \<Rightarrow> bool \<Rightarrow> string \<Rightarrow> string" where
  "baseName P caseSensitive p = (if caseSensitive then Base P p else ToLower P (Base P p))"

text \<open>
  One step of a goroutine on the shared state; \<open>None\<close> when it cannot move (it waits in
  \<open>mu.Lock()\<close>, or it has finished).
\<close>

definition goroutine_step :: "platform \<Rightarrow> bool \<Rightarrow> shared \<Rightarrow> goroutine \<Rightarrow> (shared \<times> goroutine) option" where
  "goroutine_step P caseSensitive sh g =
     (case gpc g of
        Start \<Rightarrow>
          Some (sh, g\<lparr>gpc := (if caseSensitive then Ready
                               else Lowered (ToLower P (pattern_var sh)))\<rparr>)
      | Lowered s \<Rightarrow> Some (sh\<lparr>pattern_var := s\<rparr>, g\<lparr>gpc := Ready\<rparr>)
      | Ready \<Rightarrow>
          (case Match P (pattern_var sh) (baseName P caseSensitive (gpath g)) of
             (matched, err) \<Rightarrow> Some (sh, g\<lparr>gpc := Tested (err = None \<and> matched)\<rparr>))
      | Tested b \<Rightarrow>
          if b then (if mu sh then None else Some (sh\<lparr>mu := True\<rparr>, g\<lparr>gpc := Locked\<rparr>))
          else Some (sh, g\<lparr>gpc := Finished\<rparr>)
      | Locked \<Rightarrow> Some (sh, g\<lparr>gpc := Loaded (matches sh)\<rparr>)
      | Loaded ms \<Rightarrow> Some (sh\<lparr>matches := ms @ [gpath g]\<rparr>, g\<lparr>gpc := Stored\<rparr>)
      | Stored \<Rightarrow> Some (sh\<lparr>mu := False\<rparr>, g\<lparr>gpc := Finished\<rparr>)
      | Finished \<Rightarrow> None)"

text \<open>
  The goroutines run interleaved: a schedule names, step by step, the goroutine that
  moves next (a goroutine that cannot move, or a number that names none, leaves the
  state as it is). The walk shares nothing with the goroutines it starts, so every
  interleaving of the walk and the goroutines has the same effect as the walk followed
  by some schedule of the goroutines.
\<close>

definition sys_step :: "platform \<Rightarrow> bool \<Rightarrow> shared \<times> goroutine list \<Rightarrow> nat \<Rightarrow> shared \<times> goroutine list" where
  "sys_step P caseSensitive s i =
     (case s of
        (sh, gs) \<Rightarrow>
          if i < length gs then
            (case goroutine_step P caseSensitive sh (gs ! i) of
               None \<Rightarrow> (sh, gs)
             | Some (sh', g') \<Rightarrow> (sh', gs[i := g']))
          else (sh, gs))"

definition run :: "platform \<Rightarrow> bool \<Rightarrow> nat list \<Rightarrow> shared \<times> goroutine list \<Rightarrow> shared \<times> goroutine list" where
  "run P caseSensitive sched s = foldl (sys_step P caseSensitive) s sched"

definition all_finished :: "goroutine list \<Rightarrow> bool" where
  "all_finished gs = list_all (\<lambda>g. gpc g = Finished) gs"

definition initial :: "string \<Rightarrow> string list \<Rightarrow> shared \<times> goroutine list" where
  "initial pat ps =
     (\<lparr>pattern_var = pat, matches = [], mu = False\<rparr>, map (\<lambda>p. \<lparr>gpath = p, gpc = Start\<rparr>) ps)"

text \<open>
  \<open>Search\<close> under a schedule of its goroutines: what it has printed, and what it returns
  once \<open>wg.Wait()\<close> has let it pass, that is when every goroutine has finished; \<open>None\<close>
  while the schedule leaves a goroutine unfinished.
\<close>

definition Search :: "platform \<Rightarrow> nat list \<Rightarrow> string \<Rightarrow> string \<Rightarrow> bool \<Rightarrow> bool \<Rightarrow> bool
    \<Rightarrow> printed list \<times> (string list \<times> error option) option" where
  "Search P sched rootDir pat fileOnly dirOnly caseSensitive =
     (case WalkDir P rootDir (visit_fn fileOnly dirOnly) \<lparr>stdout = [], spawned = []\<rparr> of
        (err, w) \<Rightarrow>
          (case run P caseSensitive sched (initial pat (spawned w)) of
             (sh, gs) \<Rightarrow>
               (stdout w, if all_finished gs then Some (matches sh, err) else None)))"

section \<open>\<open>main\<close> (search.go, lines 125-150)\<close>

text \<open>
  How the process ends: with an exit status (0 when \<open>main\<close> returns), with the run-time
  panic of \<open>ParseFlags\<close>, or not at all under the given schedule.
\<close>

datatype ending = Exit nat | RuntimePanic | Waiting

text \<open>Lines 141-149: the lines for the matches \<open>Search\<close> returned.\<close>

definition print_results :: "string list \<Rightarrow> printed list" where
  "print_results found =
     (if length found = 0 then [NoPathMatches] else FoundPaths # map PathLine found)"

definition main :: "platform \<Rightarrow> nat list \<Rightarrow> string list \<Rightarrow> printed list \<times> ending" where
  "main P sched Args =
     (case ParseFlags Args of
        IndexPanic \<Rightarrow> ([], RuntimePanic)
      | HelpExit program \<Rightarrow> ([UsageText program], Exit 0)
      | ParseError msg \<Rightarrow>
          (case Args of
             [] \<Rightarrow> ([ErrorLine msg], RuntimePanic)
           | program # rest \<Rightarrow> ([ErrorLine msg, UsageText program], Exit 1))
      | Parsed opts \<Rightarrow>
          (case Search P sched (directory opts) (pattern opts) (isFileOnly opts) (isDirOnly opts)
                  (isCaseSensitive opts) of
             (out, None) \<Rightarrow> (out, Waiting)
           | (out, Some (found, err)) \<Rightarrow>
               (case err of
                  Some e \<Rightarrow> (out @ [SearchErrorLine e], Exit 0)
                | None \<Rightarrow> (out @ print_results found, Exit 0))))"

section \<open>Stating what the walk does\<close>

text \<open>
  The entries of a tree with the paths \<open>WalkDir\<close> gives them, a directory before its
  entries, whatever errors reading the directories gave.
\<close>

fun entries_of :: "platform \<Rightarrow> string \<Rightarrow> DirEntry \<Rightarrow> (string \<times> DirEntry) list"
  and entries_in :: "platform \<Rightarrow> string \<Rightarrow> DirEntry list \<Rightarrow> (string \<times> DirEntry) list" where
  "entries_of P p (File name) = [(p, File name)]"
| "entries_of P p (Dir name rerr dirs) = (p, Dir name rerr dirs) # entries_in P p dirs"
| "entries_in P p [] = []"
| "entries_in P p (d1 # dirs) = entries_of P (Join P p (Name d1)) d1 @ entries_in P p dirs"

text \<open>The line printed for an error at a path (lines 67-77).\<close>

definition skipping :: "string \<Rightarrow> error \<Rightarrow> printed" where
  "skipping p err = (if is_access_denied err then SkippingAccessDenied p else SkippingUnhandled err)"

text \<open>The lines for the directories of a tree that could not be read, in the order of the walk.\<close>

fun failures_of :: "platform \<Rightarrow> string \<Rightarrow> DirEntry \<Rightarrow> printed list"
  and failures_in :: "platform \<Rightarrow> string \<Rightarrow> DirEntry list \<Rightarrow> printed list" where
  "failures_of P p (File name) = []"
| "failures_of P p (Dir name rerr dirs) =
     (case rerr of None \<Rightarrow> [] | Some e \<Rightarrow> [skipping p e]) @ failures_in P p dirs"
| "failures_in P p [] = []"
| "failures_in P p (d1 # dirs) = failures_of P (Join P p (Name d1)) d1 @ failures_in P p dirs"

text \<open>The type filter of lines 81-86: the entries that get a match test.\<close>

definition tested :: "bool \<Rightarrow> bool \<Rightarrow> DirEntry \<Rightarrow> bool" where
  "tested fileOnly dirOnly d = (\<not> (fileOnly \<and> IsDir d) \<and> \<not> (dirOnly \<and> \<not> IsDir d))"

definition tested_paths :: "bool \<Rightarrow> bool \<Rightarrow> (string \<times> DirEntry) list \<Rightarrow> string list" where
  "tested_paths fileOnly dirOnly es = map fst (filter (\<lambda>e. tested fileOnly dirOnly (snd e)) es)"

section \<open>Stating what the goroutines do\<close>

text \<open>
  The pattern a match test reads when every goroutine lower-cases it first (the pattern
  as given when the search is case-sensitive), and the test of lines 100-101 on a path
  with that pattern.
\<close>

definition seen_pattern :: "platform \<Rightarrow> bool \<Rightarrow> string \<Rightarrow> string" where
  "seen_pattern P caseSensitive pat = (if caseSensitive then pat else ToLower P pat)"

definition match_test :: "platform \<Rightarrow> bool \<Rightarrow> string \<Rightarrow> string \<Rightarrow> bool" where
  "match_test P caseSensitive pat p =
     (case Match P (seen_pattern P caseSensitive pat) (baseName P caseSensitive p) of
        (matched, err) \<Rightarrow> err = None \<and> matched)"

text \<open>Lower-casing the pattern a second time gives nothing new.\<close>

definition lower_stable :: "platform \<Rightarrow> string \<Rightarrow> bool" where
  "lower_stable P pat = (ToLower P (ToLower P pat) = ToLower P pat)"

text \<open>A goroutine between \<open>mu.Lock()\<close> and \<open>mu.Unlock()\<close>.\<close>

definition holding :: "goroutine \<Rightarrow> bool" where
  "holding g =
     (case gpc g of
        Start \<Rightarrow> False | Lowered s \<Rightarrow> False | Ready \<Rightarrow> False | Tested b \<Rightarrow> False
      | Locked \<Rightarrow> True | Loaded ms \<Rightarrow> True | Stored \<Rightarrow> True | Finished \<Rightarrow> False)"

text \<open>The path a goroutine has added to \<open>matches\<close> so far, if any.\<close>

definition added :: "platform \<Rightarrow> bool \<Rightarrow> string \<Rightarrow> goroutine \<Rightarrow> string list" where
  "added P caseSensitive pat g =
     (case gpc g of
        Start \<Rightarrow> [] | Lowered s \<Rightarrow> [] | Ready \<Rightarrow> [] | Tested b \<Rightarrow> []
      | Locked \<Rightarrow> [] | Loaded ms \<Rightarrow> [] | Stored \<Rightarrow> [gpath g]
      | Finished \<Rightarrow> if match_test P caseSensitive pat (gpath g) then [gpath g] else [])"

text \<open>What holds of a goroutine at each of its points, whatever the others have done.\<close>

definition goroutine_ok :: "platform \<Rightarrow> bool \<Rightarrow> string \<Rightarrow> shared \<Rightarrow> goroutine \<Rightarrow> bool" where
  "goroutine_ok P caseSensitive pat sh g =
     (case gpc g of
        Start \<Rightarrow> True
      | Lowered s \<Rightarrow> \<not> caseSensitive \<and> s = ToLower P pat
      | Ready \<Rightarrow> pattern_var sh = seen_pattern P caseSensitive pat
      | Tested b \<Rightarrow> b = match_test P caseSensitive pat (gpath g)
      | Locked \<Rightarrow> match_test P caseSensitive pat (gpath g) \<and> mu sh
      | Loaded ms \<Rightarrow> match_test P caseSensitive pat (gpath g) \<and> mu sh \<and> ms = matches sh
      | Stored \<Rightarrow> match_test P caseSensitive pat (gpath g) \<and> mu sh
      | Finished \<Rightarrow> True)"

text \<open>
  The invariant of the goroutines of one search: each is as above, at most one is
  between lock and unlock, the mutex is locked only then, the shared pattern is the one
  given or its lower-casing, and \<open>matches\<close> holds the paths added so far.
\<close>

definition invariant :: "platform \<Rightarrow> bool \<Rightarrow> string \<Rightarrow> shared \<times> goroutine list \<Rightarrow> bool" where
  "invariant P caseSensitive pat s =
     (case s of
        (sh, gs) \<Rightarrow>
          (\<forall>i < length gs. goroutine_ok P caseSensitive pat sh (gs ! i))
          \<and> (\<forall>i < length gs. \<forall>j < length gs. holding (gs ! i) \<and> holding (gs ! j) \<longrightarrow> i = j)
          \<and> (mu sh \<longrightarrow> (\<exists>i < length gs. holding (gs ! i)))
          \<and> (pattern_var sh = pat \<or> (\<not> caseSensitive \<and> pattern_var sh = ToLower P pat))
          \<and> mset (matches sh) = mset (concat (map (added P caseSensitive pat) gs)))"



text \<open>What the walk of \<open>Search\<close> comes by from a root path, and what it prints.\<close>

definition yielded :: "platform \<Rightarrow> string \<Rightarrow> (string \<times> DirEntry) list" where
  "yielded P rootDir = (case Lstat P rootDir of Inl e \<Rightarrow> [] | Inr d \<Rightarrow> entries_of P rootDir d)"

definition walk_lines :: "platform \<Rightarrow> string \<Rightarrow> printed list" where
  "walk_lines P rootDir =
     (case Lstat P rootDir of Inl e \<Rightarrow> [skipping rootDir e] | Inr d \<Rightarrow> failures_of P rootDir d)"

section \<open>A platform to run the model on\<close>

text \<open>
  A small instance of the library functions, for evaluating the model: paths with
  \<open>/\<close>, lower-casing of the ASCII letters, and a matcher for patterns made of literal
  characters, \<open>*\<close> and \<open>?\<close> that rejects a pattern with a bracket or a backslash. One
  root exists, \<open>root\<close>, with the files \<open>B.TXT\<close> and \<open>a.txt\<close>, the directory \<open>locked\<close>
  that cannot be read, and the directory \<open>sub\<close> with a file \<open>a.txt\<close>.
\<close>

definition lower_char :: "char \<Rightarrow> char" where
  "lower_char c =
     (let n = (of_char c :: nat) in if 65 \<le> n \<and> n \<le> 90 then char_of (n + 32) else c)"

fun glob :: "string \<Rightarrow> string \<Rightarrow> bool" where
  "glob [] n = (n = [])"
| "glob (c # p) [] = (c = CHR ''*'' \<and> glob p [])"
| "glob (c # p) (x # n) =
     (if c = CHR ''*'' then glob p (x # n) \<or> glob (c # p) n
      else (c = CHR ''?'' \<or> c = x) \<and> glob p n)"

definition demo_tree :: DirEntry where
  "demo_tree =
     Dir ''root'' None
       [File ''B.TXT'', File ''a.txt'',
        Dir ''locked'' (Some (PathError ''open'' ''root/locked'' (Errno 5))) [],
        Dir ''sub'' None [File ''a.txt'']]"

definition demo :: platform where
  "demo =
     \<lparr>Lstat = (\<lambda>p. if p = ''root'' then Inr demo_tree else Inl (PathError ''lstat'' p (Errno 2))),
      Join = (\<lambda>dir name. dir @ ''/'' @ name),
      Base = (\<lambda>p. rev (takeWhile (\<lambda>c. c \<noteq> CHR ''/'') (rev p))),
      ToLower = map lower_char,
      Match = (\<lambda>pat name.
        if CHR ''['' \<in> set pat \<or> CHR 0x5C \<in> set pat then (False, Some ErrBadPattern)
        else (glob pat name, None))\<rparr>"

section \<open>Properties of \<open>ParseFlags\<close>\<close>

lemma flags_disjoint:
  "is_file_flag arg \<Longrightarrow> \<not> is_dir_flag arg"
  "is_file_flag arg \<Longrightarrow> \<not> is_case_flag arg"
  "is_file_flag arg \<Longrightarrow> \<not> is_help_flag arg"
  "is_dir_flag arg \<Longrightarrow> \<not> is_case_flag arg"
  "is_dir_flag arg \<Longrightarrow> \<not> is_help_flag arg"
  "is_case_flag arg \<Longrightarrow> \<not> is_help_flag arg"
  unfolding is_file_flag_def is_dir_flag_def is_case_flag_def is_help_flag_def
  by auto

lemma parse_loop_help:
  "has_flag is_help_flag args \<Longrightarrow> parse_loop args opts pos = None"
proof (induction args opts pos rule: parse_loop.induct)
  case (1 opts positionalArgs)
  then show ?case by (simp add: has_flag_def)
next
  case (2 arg args opts positionalArgs)
  show ?case
  proof (cases "is_help_flag arg")
    case True
    then have "\<not> is_file_flag arg" "\<not> is_dir_flag arg" "\<not> is_case_flag arg"
      using flags_disjoint by blast+
    with True show ?thesis by simp
  next
    case False
    with "2.prems" have "has_flag is_help_flag args" by (simp add: has_flag_def)
    with "2.IH" False show ?thesis by simp
  qed
qed

lemma parse_loop_no_help:
  "\<not> has_flag is_help_flag args \<Longrightarrow>
   parse_loop args opts pos =
     Some (opts\<lparr>isFileOnly := isFileOnly opts \<or> has_flag is_file_flag args,
                isDirOnly := isDirOnly opts \<or> has_flag is_dir_flag args,
                isCaseSensitive := isCaseSensitive opts \<or> has_flag is_case_flag args\<rparr>,
           pos @ positionals args)"
proof (induction args opts pos rule: parse_loop.induct)
  case (1 opts positionalArgs)
  show ?case by (simp add: has_flag_def positionals_def)
next
  case (2 arg args opts positionalArgs)
  from "2.prems" have nh: "\<not> has_flag is_help_flag args" and na: "\<not> is_help_flag arg"
    by (simp_all add: has_flag_def)
  consider (f) "is_file_flag arg" | (d) "\<not> is_file_flag arg" "is_dir_flag arg"
    | (c) "\<not> is_file_flag arg" "\<not> is_dir_flag arg" "is_case_flag arg"
    | (p) "\<not> is_file_flag arg" "\<not> is_dir_flag arg" "\<not> is_case_flag arg"
    by blast
  then show ?case
  proof cases
    case f
    then have np: "\<not> is_positional arg" "\<not> is_dir_flag arg" "\<not> is_case_flag arg"
      using flags_disjoint by (simp_all add: is_positional_def)
    from "2.IH"(1)[OF f nh] f np show ?thesis
      by (simp add: has_flag_def positionals_def)
  next
    case d
    then have np: "\<not> is_positional arg" "\<not> is_case_flag arg"
      using flags_disjoint by (simp_all add: is_positional_def)
    from "2.IH"(2)[OF d nh] d np show ?thesis
      by (simp add: has_flag_def positionals_def)
  next
    case c
    then have np: "\<not> is_positional arg" by (simp add: is_positional_def)
    from "2.IH"(3)[OF c nh] c np show ?thesis
      by (simp add: has_flag_def positionals_def)
  next
    case p
    with na have ip: "is_positional arg" by (simp add: is_positional_def)
    from "2.IH"(4)[OF p na nh] p na ip show ?thesis
      by (simp add: has_flag_def positionals_def)
  qed
qed

lemma ParseFlags_help:
  "has_flag is_help_flag args \<Longrightarrow> ParseFlags (program # args) = HelpExit program"
  by (simp add: ParseFlags_def parse_loop_help)

lemma ParseFlags_no_help:
  "\<not> has_flag is_help_flag args \<Longrightarrow>
   ParseFlags (program # args) =
     (if length (positionals args) \<noteq> 2 then ParseError invalid_positional
      else if has_flag is_file_flag args \<and> has_flag is_dir_flag args
        then ParseError both_type_flags
      else Parsed \<lparr>isFileOnly = has_flag is_file_flag args,
                     isDirOnly = has_flag is_dir_flag args,
                     isCaseSensitive = has_flag is_case_flag args,
                     directory = positionals args ! 0,
                     pattern = positionals args ! 1\<rparr>)"
  by (simp add: ParseFlags_def parse_loop_no_help zero_Options_def Let_def)

lemma has_flag_mset:
  "mset args' = mset args \<Longrightarrow> has_flag f args' = has_flag f args"
  by (metis has_flag_def list_ex_iff mset_eq_setD)

text \<open>
  C6. When an argument vector resolves to a configuration, every rearrangement of its
  tokens after the program name that keeps the positional tokens in their relative
  order resolves to the same configuration.
\<close>

theorem ParseFlags_order_independent:
  assumes "ParseFlags (program # args) = Parsed opts"
    and "mset args' = mset args"
    and "positionals args' = positionals args"
  shows "ParseFlags (program # args') = Parsed opts"
proof -
  have nh: "\<not> has_flag is_help_flag args"
  proof
    assume "has_flag is_help_flag args"
    then have "ParseFlags (program # args) = HelpExit program" by (rule ParseFlags_help)
    with assms(1) show False by simp
  qed
  then have nh': "\<not> has_flag is_help_flag args'"
    using has_flag_mset[OF assms(2)] by simp
  have "ParseFlags (program # args') = ParseFlags (program # args)"
    unfolding ParseFlags_no_help[OF nh] ParseFlags_no_help[OF nh']
    by (simp only: assms(3) has_flag_mset[OF assms(2)])
  with assms(1) show ?thesis by simp
qed

text \<open>
  The theorem at \<open>search root -f *.go\<close> against \<open>search -f root *.go\<close>: the flag moves
  in front of the two positional tokens.
\<close>

theorem ParseFlags_order_independent_witness:
  "ParseFlags [''search'', ''root'', ''-f'', ''*.go''] =
     Parsed \<lparr>isFileOnly = True, isDirOnly = False, isCaseSensitive = False,
             directory = ''root'', pattern = ''*.go''\<rparr>
   \<and> mset [''-f'', ''root'', ''*.go''] = mset [''root'', ''-f'', ''*.go'']
   \<and> positionals [''-f'', ''root'', ''*.go''] = positionals [''root'', ''-f'', ''*.go'']
   \<and> ParseFlags [''search'', ''-f'', ''root'', ''*.go''] =
     Parsed \<lparr>isFileOnly = True, isDirOnly = False, isCaseSensitive = False,
             directory = ''root'', pattern = ''*.go''\<rparr>"
proof -
  have h1: "ParseFlags [''search'', ''root'', ''-f'', ''*.go''] =
     Parsed \<lparr>isFileOnly = True, isDirOnly = False, isCaseSensitive = False,
             directory = ''root'', pattern = ''*.go''\<rparr>"
    by (simp add: ParseFlags_def zero_Options_def is_file_flag_def is_dir_flag_def
        is_case_flag_def is_help_flag_def)
  have h2: "mset [''-f'', ''root'', ''*.go''] = mset [''root'', ''-f'', ''*.go'']"
    by (simp add: add_mset_commute)
  have h3: "positionals [''-f'', ''root'', ''*.go''] = positionals [''root'', ''-f'', ''*.go'']"
    by (simp add: positionals_def is_positional_def is_file_flag_def is_dir_flag_def
        is_case_flag_def is_help_flag_def)
  from ParseFlags_order_independent[OF h1 h2 h3] h1 h2 h3 show ?thesis by simp
qed

text \<open>
  C7, as the claim states it, fails where a help flag stands beside the two type flags:
  \<open>search -f -d -h\<close> prints the usage text and leaves with status 0; no error is
  returned.
\<close>

theorem both_type_flags_counterexample:
  "has_flag is_file_flag [''-f'', ''-d'', ''-h'']
   \<and> has_flag is_dir_flag [''-f'', ''-d'', ''-h'']
   \<and> ParseFlags [''search'', ''-f'', ''-d'', ''-h''] = HelpExit ''search''
   \<and> \<not> (\<exists>msg. ParseFlags [''search'', ''-f'', ''-d'', ''-h''] = ParseError msg)"
  by (simp add: ParseFlags_def zero_Options_def has_flag_def is_file_flag_def is_dir_flag_def
      is_case_flag_def is_help_flag_def)

text \<open>
  C7, amended. An argument vector that holds a file-only flag and a directory-only flag
  and no help flag never resolves: \<open>ParseFlags\<close> returns an error, the one about the
  number of positional arguments when they are not two, the one about the two type flags
  otherwise.
\<close>

theorem both_type_flags_rejected:
  assumes "has_flag is_file_flag args"
    and "has_flag is_dir_flag args"
    and "\<not> has_flag is_help_flag args"
  shows "ParseFlags (program # args) =
           (if length (positionals args) = 2 then ParseError both_type_flags
            else ParseError invalid_positional)"
  using assms(1,2) by (simp add: ParseFlags_no_help[OF assms(3)])

text \<open>The amended C7 at \<open>search -f root -d x*\<close>.\<close>

theorem both_type_flags_rejected_witness:
  "has_flag is_file_flag [''-f'', ''root'', ''-d'', ''x*'']
   \<and> has_flag is_dir_flag [''-f'', ''root'', ''-d'', ''x*'']
   \<and> \<not> has_flag is_help_flag [''-f'', ''root'', ''-d'', ''x*'']
   \<and> ParseFlags [''search'', ''-f'', ''root'', ''-d'', ''x*''] = ParseError both_type_flags"
proof -
  have h1: "has_flag is_file_flag [''-f'', ''root'', ''-d'', ''x*'']"
    by (simp add: has_flag_def is_file_flag_def)
  have h2: "has_flag is_dir_flag [''-f'', ''root'', ''-d'', ''x*'']"
    by (simp add: has_flag_def is_dir_flag_def)
  have h3: "\<not> has_flag is_help_flag [''-f'', ''root'', ''-d'', ''x*'']"
    by (simp add: has_flag_def is_help_flag_def)
  have h4: "length (positionals [''-f'', ''root'', ''-d'', ''x*'']) = 2"
    by (simp add: positionals_def is_positional_def is_file_flag_def is_dir_flag_def
        is_case_flag_def is_help_flag_def)
  from both_type_flags_rejected[OF h1 h2 h3, of "''search''"] h1 h2 h3 h4 show ?thesis
    by simp
qed

text \<open>
  C9, as the claim states it, fails where a help flag is present: \<open>search -d --help -f\<close>
  has no positional token, and the call prints the usage text and leaves with status 0
  instead of returning the error about the number of positional arguments.
\<close>

theorem positional_count_counterexample:
  "length (positionals [''-d'', ''--help'', ''-f'']) \<noteq> 2
   \<and> ParseFlags [''search'', ''-d'', ''--help'', ''-f''] = HelpExit ''search''
   \<and> ParseFlags [''search'', ''-d'', ''--help'', ''-f''] \<noteq> ParseError invalid_positional"
  by (simp add: ParseFlags_def zero_Options_def positionals_def is_positional_def
      is_file_flag_def is_dir_flag_def is_case_flag_def is_help_flag_def)

text \<open>
  C9, amended. For an argument vector with no help flag whose positional tokens are not
  exactly two, \<open>ParseFlags\<close> returns the error "invalid number of positional arguments",
  whatever flags are set, the two type flags together included: the count is checked
  before the type flags are.
\<close>

theorem positional_count_checked_first:
  assumes "length (positionals args) \<noteq> 2"
    and "\<not> has_flag is_help_flag args"
  shows "ParseFlags (program # args) = ParseError invalid_positional"
  using assms(1) by (simp add: ParseFlags_no_help[OF assms(2)])

text \<open>The amended C9 at \<open>search -f -d root\<close>, where both type flags are set.\<close>

theorem positional_count_checked_first_witness:
  "length (positionals [''-f'', ''-d'', ''root'']) \<noteq> 2
   \<and> \<not> has_flag is_help_flag [''-f'', ''-d'', ''root'']
   \<and> has_flag is_file_flag [''-f'', ''-d'', ''root'']
   \<and> has_flag is_dir_flag [''-f'', ''-d'', ''root'']
   \<and> ParseFlags [''search'', ''-f'', ''-d'', ''root''] = ParseError invalid_positional"
proof -
  have h1: "length (positionals [''-f'', ''-d'', ''root'']) \<noteq> 2"
    by (simp add: positionals_def is_positional_def is_file_flag_def is_dir_flag_def
        is_case_flag_def is_help_flag_def)
  have h2: "\<not> has_flag is_help_flag [''-f'', ''-d'', ''root'']"
    by (simp add: has_flag_def is_help_flag_def)
  have h3: "has_flag is_file_flag [''-f'', ''-d'', ''root'']"
    by (simp add: has_flag_def is_file_flag_def)
  have h4: "has_flag is_dir_flag [''-f'', ''-d'', ''root'']"
    by (simp add: has_flag_def is_dir_flag_def)
  from positional_count_checked_first[OF h1 h2, of "''search''"] h1 h2 h3 h4 show ?thesis
    by simp
qed

section \<open>Properties of the walk\<close>

lemma tested_paths_simps:
  "tested_paths fo do [] = []"
  "tested_paths fo do ((p, d) # es) =
     (if tested fo do d then p # tested_paths fo do es else tested_paths fo do es)"
  "tested_paths fo do (es @ es') = tested_paths fo do es @ tested_paths fo do es'"
  by (simp_all add: tested_paths_def)

lemma visit_fn_Entry:
  "visit_fn fo do s p (Entry d) =
     (None, s\<lparr>spawned := spawned s @ tested_paths fo do [(p, d)]\<rparr>)"
  by (simp add: tested_paths_def tested_def)

lemma visit_fn_Failed:
  "visit_fn fo do s p (Failed d e) = (None, s\<lparr>stdout := stdout s @ [skipping p e]\<rparr>)"
  by (simp add: skipping_def)

lemma walkDir_visit_fn:
  "walkDir P (visit_fn fo do) p d s =
     (None, s\<lparr>stdout := stdout s @ failures_of P p d,
              spawned := spawned s @ tested_paths fo do (entries_of P p d)\<rparr>)"
  "walkDirs P (visit_fn fo do) p ds s =
     (None, s\<lparr>stdout := stdout s @ failures_in P p ds,
              spawned := spawned s @ tested_paths fo do (entries_in P p ds)\<rparr>)"
proof (induction p d and p ds arbitrary: s and s rule: entries_of_entries_in.induct)
  case (1 P p name)
  show ?case by (simp only: walkDir.simps visit_fn_Entry entries_of.simps failures_of.simps) simp
next
  case (2 P p name rerr dirs)
  show ?case
  proof (cases rerr)
    case None
    then show ?thesis
      by (simp add: visit_fn_Entry "2.IH" tested_paths_simps del: visit_fn.simps)
  next
    case (Some e)
    then show ?thesis
      by (simp add: visit_fn_Entry visit_fn_Failed "2.IH" tested_paths_simps del: visit_fn.simps)
  qed
next
  case (3 P p)
  show ?case by (simp add: tested_paths_simps)
next
  case (4 P p d1 dirs)
  show ?case
    by (simp add: "4.IH" tested_paths_simps)
qed

section \<open>Properties of the goroutines\<close>

lemma added_update:
  "i < length gs \<Longrightarrow>
   mset (concat (map f (gs[i := g']))) + mset (f (gs ! i)) = mset (concat (map f gs)) + mset (f g')"
proof (induction gs arbitrary: i)
  case Nil
  then show ?case by simp
next
  case (Cons g gs)
  show ?case
  proof (cases i)
    case 0
    then show ?thesis by simp
  next
    case (Suc k)
    with Cons.prems have "k < length gs" by simp
    from Cons.IH[OF this] Suc show ?thesis by (simp add: ac_simps)
  qed
qed

text \<open>A step that changes neither the lock, nor \<open>matches\<close>, nor what was added.\<close>

lemma quiet_step:
  assumes inv: "invariant P cs pat (sh, gs)"
    and i: "i < length gs"
    and h: "holding g' = holding (gs ! i)"
    and a: "added P cs pat g' = added P cs pat (gs ! i)"
    and g': "goroutine_ok P cs pat sh' g'"
    and sh': "matches sh' = matches sh" "mu sh' = mu sh"
    and pv: "pattern_var sh' = pattern_var sh \<or> (\<not> cs \<and> pattern_var sh' = ToLower P pat)"
  shows "invariant P cs pat (sh', gs[i := g'])"
proof -
  from inv have ok: "\<forall>j < length gs. goroutine_ok P cs pat sh (gs ! j)"
    and uniq: "\<forall>j < length gs. \<forall>k < length gs. holding (gs ! j) \<and> holding (gs ! k) \<longrightarrow> j = k"
    and lk: "mu sh \<longrightarrow> (\<exists>j < length gs. holding (gs ! j))"
    and pv0: "pattern_var sh = pat \<or> (\<not> cs \<and> pattern_var sh = ToLower P pat)"
    and ms: "mset (matches sh) = mset (concat (map (added P cs pat) gs))"
    by (simp_all add: invariant_def)
  have hold: "\<And>j. j < length gs \<Longrightarrow> holding (gs[i := g'] ! j) = holding (gs ! j)"
    using h i by (simp add: nth_list_update)
  have c1: "\<forall>j < length (gs[i := g']). goroutine_ok P cs pat sh' (gs[i := g'] ! j)"
  proof (intro allI impI)
    fix j assume j: "j < length (gs[i := g'])"
    show "goroutine_ok P cs pat sh' (gs[i := g'] ! j)"
    proof (cases "j = i")
      case True
      with i g' show ?thesis by simp
    next
      case False
      from j ok have "goroutine_ok P cs pat sh (gs ! j)" by simp
      with sh' pv pv0 have "goroutine_ok P cs pat sh' (gs ! j)"
        by (auto simp: goroutine_ok_def seen_pattern_def split: pc.splits)
      with False show ?thesis by simp
    qed
  qed
  have c2: "\<forall>j < length (gs[i := g']). \<forall>k < length (gs[i := g']).
      holding (gs[i := g'] ! j) \<and> holding (gs[i := g'] ! k) \<longrightarrow> j = k"
    using uniq hold by simp
  have c3: "mu sh' \<longrightarrow> (\<exists>j < length (gs[i := g']). holding (gs[i := g'] ! j))"
    using lk sh' hold by auto
  have c4: "pattern_var sh' = pat \<or> (\<not> cs \<and> pattern_var sh' = ToLower P pat)"
    using pv pv0 by auto
  have c5: "mset (matches sh') = mset (concat (map (added P cs pat) (gs[i := g'])))"
    using added_update[OF i, of "added P cs pat" g'] a ms sh' by simp
  from c1 c2 c3 c4 c5 show ?thesis by (simp add: invariant_def)
qed


lemma invariantD:
  assumes "invariant P cs pat (sh, gs)"
  shows "\<forall>j < length gs. goroutine_ok P cs pat sh (gs ! j)"
    and "\<forall>j < length gs. \<forall>k < length gs. holding (gs ! j) \<and> holding (gs ! k) \<longrightarrow> j = k"
    and "mu sh \<longrightarrow> (\<exists>j < length gs. holding (gs ! j))"
    and "pattern_var sh = pat \<or> (\<not> cs \<and> pattern_var sh = ToLower P pat)"
    and "mset (matches sh) = mset (concat (map (added P cs pat) gs))"
  using assms by (simp_all add: invariant_def)

lemma holder_locked:
  "goroutine_ok P cs pat sh g \<Longrightarrow> holding g \<Longrightarrow> mu sh"
  by (auto simp: goroutine_ok_def holding_def split: pc.splits)

lemma not_holding_ok:
  "goroutine_ok P cs pat sh g \<Longrightarrow> \<not> holding g \<Longrightarrow> pattern_var sh' = pattern_var sh \<Longrightarrow>
   goroutine_ok P cs pat sh' g"
  by (auto simp: goroutine_ok_def holding_def split: pc.splits)

lemma sole_holder:
  assumes none: "\<And>j. j < length gs \<Longrightarrow> j \<noteq> i \<Longrightarrow> \<not> holding (gs ! j)"
  shows "\<forall>j < length (gs[i := g']). \<forall>k < length (gs[i := g']).
      holding (gs[i := g'] ! j) \<and> holding (gs[i := g'] ! k) \<longrightarrow> j = k"
proof (intro allI impI)
  fix j k
  assume j: "j < length (gs[i := g'])" and k: "k < length (gs[i := g'])"
    and h: "holding (gs[i := g'] ! j) \<and> holding (gs[i := g'] ! k)"
  have "j = i"
  proof (rule ccontr)
    assume "j \<noteq> i"
    with h have "holding (gs ! j)" by simp
    with none[of j] j \<open>j \<noteq> i\<close> show False by simp
  qed
  moreover have "k = i"
  proof (rule ccontr)
    assume "k \<noteq> i"
    with h have "holding (gs ! k)" by simp
    with none[of k] k \<open>k \<noteq> i\<close> show False by simp
  qed
  ultimately show "j = k" by simp
qed

text \<open>\<open>mu.Lock()\<close> returns: the mutex was free, so no goroutine was holding it.\<close>

lemma lock_step:
  assumes inv: "invariant P cs pat (sh, gs)"
    and i: "i < length gs"
    and pc: "gpc (gs ! i) = Tested True"
    and free: "\<not> mu sh"
  shows "invariant P cs pat (sh\<lparr>mu := True\<rparr>, gs[i := (gs ! i)\<lparr>gpc := Locked\<rparr>])"
proof -
  let ?g' = "(gs ! i)\<lparr>gpc := Locked\<rparr>"
  let ?sh' = "sh\<lparr>mu := True\<rparr>"
  note d = invariantD[OF inv]
  have none: "\<And>j. j < length gs \<Longrightarrow> \<not> holding (gs ! j)"
    using d(1) free holder_locked by blast
  from d(1) i pc have mt: "match_test P cs pat (gpath (gs ! i))"
    by (auto simp: goroutine_ok_def)
  have c1: "\<forall>j < length (gs[i := ?g']). goroutine_ok P cs pat ?sh' (gs[i := ?g'] ! j)"
  proof (intro allI impI)
    fix j assume j: "j < length (gs[i := ?g'])"
    show "goroutine_ok P cs pat ?sh' (gs[i := ?g'] ! j)"
    proof (cases "j = i")
      case True
      with i mt show ?thesis by (simp add: goroutine_ok_def)
    next
      case False
      from j d(1) have "goroutine_ok P cs pat sh (gs ! j)" by simp
      moreover from j none have "\<not> holding (gs ! j)" by simp
      ultimately have "goroutine_ok P cs pat ?sh' (gs ! j)" by (rule not_holding_ok) simp
      with False show ?thesis by simp
    qed
  qed
  have c2: "\<forall>j < length (gs[i := ?g']). \<forall>k < length (gs[i := ?g']).
      holding (gs[i := ?g'] ! j) \<and> holding (gs[i := ?g'] ! k) \<longrightarrow> j = k"
    using none by (intro sole_holder) simp
  have c3: "mu ?sh' \<longrightarrow> (\<exists>j < length (gs[i := ?g']). holding (gs[i := ?g'] ! j))"
    using i by (auto simp: holding_def intro!: exI[of _ i])
  have c4: "pattern_var ?sh' = pat \<or> (\<not> cs \<and> pattern_var ?sh' = ToLower P pat)"
    using d(4) by simp
  have c5: "mset (matches ?sh') = mset (concat (map (added P cs pat) (gs[i := ?g'])))"
    using added_update[OF i, of "added P cs pat" ?g'] d(5) pc by (simp add: added_def)
  from c1 c2 c3 c4 c5 show ?thesis by (simp add: invariant_def)
qed

text \<open>The assignment to \<open>matches\<close>: only the goroutine that holds the mutex is there.\<close>

lemma store_step:
  assumes inv: "invariant P cs pat (sh, gs)"
    and i: "i < length gs"
    and pc: "gpc (gs ! i) = Loaded ms"
  shows "invariant P cs pat
           (sh\<lparr>matches := ms @ [gpath (gs ! i)]\<rparr>, gs[i := (gs ! i)\<lparr>gpc := Stored\<rparr>])"
proof -
  let ?g' = "(gs ! i)\<lparr>gpc := Stored\<rparr>"
  let ?sh' = "sh\<lparr>matches := ms @ [gpath (gs ! i)]\<rparr>"
  note d = invariantD[OF inv]
  from pc have hi: "holding (gs ! i)" by (simp add: holding_def)
  have none: "\<And>j. j < length gs \<Longrightarrow> j \<noteq> i \<Longrightarrow> \<not> holding (gs ! j)"
    using d(2) hi i by blast
  from d(1) i pc have mt: "match_test P cs pat (gpath (gs ! i))" and lk: "mu sh"
    and eq: "ms = matches sh"
    by (auto simp: goroutine_ok_def)
  have c1: "\<forall>j < length (gs[i := ?g']). goroutine_ok P cs pat ?sh' (gs[i := ?g'] ! j)"
  proof (intro allI impI)
    fix j assume j: "j < length (gs[i := ?g'])"
    show "goroutine_ok P cs pat ?sh' (gs[i := ?g'] ! j)"
    proof (cases "j = i")
      case True
      with i mt lk show ?thesis by (simp add: goroutine_ok_def)
    next
      case False
      from j d(1) have "goroutine_ok P cs pat sh (gs ! j)" by simp
      moreover from j none False have "\<not> holding (gs ! j)" by simp
      ultimately have "goroutine_ok P cs pat ?sh' (gs ! j)" by (rule not_holding_ok) simp
      with False show ?thesis by simp
    qed
  qed
  have c2: "\<forall>j < length (gs[i := ?g']). \<forall>k < length (gs[i := ?g']).
      holding (gs[i := ?g'] ! j) \<and> holding (gs[i := ?g'] ! k) \<longrightarrow> j = k"
    using none by (intro sole_holder) simp
  have c3: "mu ?sh' \<longrightarrow> (\<exists>j < length (gs[i := ?g']). holding (gs[i := ?g'] ! j))"
    using i by (auto simp: holding_def intro!: exI[of _ i])
  have c4: "pattern_var ?sh' = pat \<or> (\<not> cs \<and> pattern_var ?sh' = ToLower P pat)"
    using d(4) by simp
  have c5: "mset (matches ?sh') = mset (concat (map (added P cs pat) (gs[i := ?g'])))"
    using added_update[OF i, of "added P cs pat" ?g'] d(5) pc eq by (simp add: added_def)
  from c1 c2 c3 c4 c5 show ?thesis by (simp add: invariant_def)
qed

text \<open>\<open>mu.Unlock()\<close>: no goroutine is holding the mutex afterwards.\<close>

lemma unlock_step:
  assumes inv: "invariant P cs pat (sh, gs)"
    and i: "i < length gs"
    and pc: "gpc (gs ! i) = Stored"
  shows "invariant P cs pat (sh\<lparr>mu := False\<rparr>, gs[i := (gs ! i)\<lparr>gpc := Finished\<rparr>])"
proof -
  let ?g' = "(gs ! i)\<lparr>gpc := Finished\<rparr>"
  let ?sh' = "sh\<lparr>mu := False\<rparr>"
  note d = invariantD[OF inv]
  from pc have hi: "holding (gs ! i)" by (simp add: holding_def)
  have none: "\<And>j. j < length gs \<Longrightarrow> j \<noteq> i \<Longrightarrow> \<not> holding (gs ! j)"
    using d(2) hi i by blast
  from d(1) i pc have mt: "match_test P cs pat (gpath (gs ! i))"
    by (auto simp: goroutine_ok_def)
  have c1: "\<forall>j < length (gs[i := ?g']). goroutine_ok P cs pat ?sh' (gs[i := ?g'] ! j)"
  proof (intro allI impI)
    fix j assume j: "j < length (gs[i := ?g'])"
    show "goroutine_ok P cs pat ?sh' (gs[i := ?g'] ! j)"
    proof (cases "j = i")
      case True
      with i show ?thesis by (simp add: goroutine_ok_def)
    next
      case False
      from j d(1) have "goroutine_ok P cs pat sh (gs ! j)" by simp
      moreover from j none False have "\<not> holding (gs ! j)" by simp
      ultimately have "goroutine_ok P cs pat ?sh' (gs ! j)" by (rule not_holding_ok) simp
      with False show ?thesis by simp
    qed
  qed
  have c2: "\<forall>j < length (gs[i := ?g']). \<forall>k < length (gs[i := ?g']).
      holding (gs[i := ?g'] ! j) \<and> holding (gs[i := ?g'] ! k) \<longrightarrow> j = k"
    using none by (intro sole_holder) simp
  have c3: "mu ?sh' \<longrightarrow> (\<exists>j < length (gs[i := ?g']). holding (gs[i := ?g'] ! j))"
    by simp
  have c4: "pattern_var ?sh' = pat \<or> (\<not> cs \<and> pattern_var ?sh' = ToLower P pat)"
    using d(4) by simp
  have c5: "mset (matches ?sh') = mset (concat (map (added P cs pat) (gs[i := ?g'])))"
    using added_update[OF i, of "added P cs pat" ?g'] d(5) pc mt by (simp add: added_def)
  from c1 c2 c3 c4 c5 show ?thesis by (simp add: invariant_def)
qed

lemma step_preserves:
  assumes inv: "invariant P cs pat (sh, gs)"
    and i: "i < length gs"
    and st: "goroutine_step P cs sh (gs ! i) = Some (sh', g')"
    and stable: "cs \<or> lower_stable P pat"
  shows "invariant P cs pat (sh', gs[i := g'])"
proof -
  note d = invariantD[OF inv]
  from d(1) i have oki: "goroutine_ok P cs pat sh (gs ! i)" by simp
  show ?thesis
  proof (cases "gpc (gs ! i)")
    case Start
    with st have sh': "sh' = sh"
      and g': "g' = (gs ! i)\<lparr>gpc := (if cs then Ready else Lowered (ToLower P (pattern_var sh)))\<rparr>"
      by (auto simp: goroutine_step_def)
    have "goroutine_ok P cs pat sh' g'"
      using d(4) stable by (auto simp: g' sh' goroutine_ok_def seen_pattern_def lower_stable_def)
    then show ?thesis
      using Start by (intro quiet_step[OF inv i]) (auto simp: g' sh' holding_def added_def)
  next
    case (Lowered s)
    with st have sh': "sh' = sh\<lparr>pattern_var := s\<rparr>" and g': "g' = (gs ! i)\<lparr>gpc := Ready\<rparr>"
      by (auto simp: goroutine_step_def)
    from oki Lowered have s: "\<not> cs" "s = ToLower P pat" by (auto simp: goroutine_ok_def)
    have "goroutine_ok P cs pat sh' g'"
      using s by (simp add: g' sh' goroutine_ok_def seen_pattern_def)
    then show ?thesis
      using Lowered s by (intro quiet_step[OF inv i]) (auto simp: g' sh' holding_def added_def)
  next
    case Ready
    with st have sh': "sh' = sh"
      and g': "g' = (gs ! i)\<lparr>gpc := Tested (match_test P cs pat (gpath (gs ! i)))\<rparr>"
      using oki by (auto simp: goroutine_step_def goroutine_ok_def match_test_def split: prod.splits)
    have "goroutine_ok P cs pat sh' g'"
      by (simp add: g' sh' goroutine_ok_def)
    then show ?thesis
      using Ready by (intro quiet_step[OF inv i]) (auto simp: g' sh' holding_def added_def)
  next
    case (Tested b)
    show ?thesis
    proof (cases b)
      case True
      with st Tested have free: "\<not> mu sh" and sh': "sh' = sh\<lparr>mu := True\<rparr>"
        and g': "g' = (gs ! i)\<lparr>gpc := Locked\<rparr>"
        by (auto simp: goroutine_step_def split: if_splits)
      from Tested True have "gpc (gs ! i) = Tested True" by simp
      from lock_step[OF inv i this free] show ?thesis by (simp add: sh' g')
    next
      case False
      with st Tested have sh': "sh' = sh" and g': "g' = (gs ! i)\<lparr>gpc := Finished\<rparr>"
        by (auto simp: goroutine_step_def)
      from oki Tested False have nm: "\<not> match_test P cs pat (gpath (gs ! i))"
        by (simp add: goroutine_ok_def)
      have "goroutine_ok P cs pat sh' g'"
        by (simp add: g' sh' goroutine_ok_def)
      then show ?thesis
        using Tested nm by (intro quiet_step[OF inv i]) (auto simp: g' sh' holding_def added_def)
    qed
  next
    case Locked
    with st have sh': "sh' = sh" and g': "g' = (gs ! i)\<lparr>gpc := Loaded (matches sh)\<rparr>"
      by (auto simp: goroutine_step_def)
    have "goroutine_ok P cs pat sh' g'"
      using oki Locked by (simp add: g' sh' goroutine_ok_def)
    then show ?thesis
      using Locked by (intro quiet_step[OF inv i]) (auto simp: g' sh' holding_def added_def)
  next
    case (Loaded ms)
    with st have sh': "sh' = sh\<lparr>matches := ms @ [gpath (gs ! i)]\<rparr>"
      and g': "g' = (gs ! i)\<lparr>gpc := Stored\<rparr>"
      by (auto simp: goroutine_step_def)
    from store_step[OF inv i Loaded] show ?thesis by (simp add: sh' g')
  next
    case Stored
    with st have sh': "sh' = sh\<lparr>mu := False\<rparr>" and g': "g' = (gs ! i)\<lparr>gpc := Finished\<rparr>"
      by (auto simp: goroutine_step_def)
    from unlock_step[OF inv i Stored] show ?thesis by (simp add: sh' g')
  next
    case Finished
    with st show ?thesis by (simp add: goroutine_step_def)
  qed
qed


lemma sys_step_preserves:
  assumes "invariant P cs pat s" and "cs \<or> lower_stable P pat"
  shows "invariant P cs pat (sys_step P cs s i)"
proof (cases s)
  case (Pair sh gs)
  show ?thesis
  proof (cases "i < length gs")
    case True
    show ?thesis
    proof (cases "goroutine_step P cs sh (gs ! i)")
      case None
      with Pair True assms(1) show ?thesis by (simp add: sys_step_def)
    next
      case (Some r)
      obtain sh' g' where r: "r = (sh', g')" by (cases r)
      from assms(1) Pair have "invariant P cs pat (sh, gs)" by simp
      from step_preserves[OF this True Some[unfolded r] assms(2)] Pair True Some r
      show ?thesis by (simp add: sys_step_def)
    qed
  next
    case False
    with Pair assms(1) show ?thesis by (simp add: sys_step_def)
  qed
qed

lemma run_preserves:
  assumes "invariant P cs pat s" and "cs \<or> lower_stable P pat"
  shows "invariant P cs pat (run P cs sched s)"
  using assms(1)
proof (induction sched arbitrary: s)
  case Nil
  then show ?case by (simp add: run_def)
next
  case (Cons i sched)
  from sys_step_preserves[OF Cons.prems assms(2)]
  have "invariant P cs pat (sys_step P cs s i)" .
  from Cons.IH[OF this] show ?case by (simp add: run_def)
qed

lemma invariant_initial: "invariant P cs pat (initial pat ps)"
proof -
  have "concat (map (added P cs pat) (map (\<lambda>p. \<lparr>gpath = p, gpc = Start\<rparr>) ps)) = []"
    by (induction ps) (simp_all add: added_def)
  then show ?thesis
    by (simp add: invariant_def initial_def goroutine_ok_def holding_def)
qed

text \<open>No step changes the path a goroutine was started with.\<close>

lemma goroutine_step_gpath:
  "goroutine_step P cs sh g = Some (sh', g') \<Longrightarrow> gpath g' = gpath g"
  by (auto simp: goroutine_step_def split: pc.splits if_splits prod.splits)

lemma sys_step_gpaths: "map gpath (snd (sys_step P cs s i)) = map gpath (snd s)"
proof (cases s)
  case (Pair sh gs)
  show ?thesis
  proof (cases "i < length gs")
    case True
    show ?thesis
    proof (cases "goroutine_step P cs sh (gs ! i)")
      case None
      with Pair True show ?thesis by (simp add: sys_step_def)
    next
      case (Some r)
      obtain sh' g' where r: "r = (sh', g')" by (cases r)
      from goroutine_step_gpath[OF Some[unfolded r]] have "gpath g' = gpath (gs ! i)" .
      then have "(map gpath gs)[i := gpath g'] = map gpath gs"
        using True by (simp add: list_update_same_conv)
      with Pair True Some r show ?thesis by (simp add: sys_step_def map_update)
    qed
  next
    case False
    with Pair show ?thesis by (simp add: sys_step_def)
  qed
qed

lemma run_gpaths: "map gpath (snd (run P cs sched s)) = map gpath (snd s)"
proof (induction sched arbitrary: s)
  case Nil
  show ?case by (simp add: run_def)
next
  case (Cons i sched)
  have "run P cs (i # sched) s = run P cs sched (sys_step P cs s i)" by (simp add: run_def)
  with Cons.IH[of "sys_step P cs s i"] sys_step_gpaths[of P cs s i] show ?case by simp
qed

text \<open>Once every goroutine has finished, \<open>matches\<close> holds the paths that pass the test.\<close>

lemma added_finished:
  "all_finished gs \<Longrightarrow>
   concat (map (added P cs pat) gs) = filter (match_test P cs pat) (map gpath gs)"
  by (induction gs) (simp_all add: all_finished_def added_def)

lemma finished_matches:
  assumes "invariant P cs pat (sh, gs)" and "all_finished gs"
  shows "mset (matches sh) = mset (filter (match_test P cs pat) (map gpath gs))"
  using invariantD(5)[OF assms(1)] added_finished[OF assms(2)] by simp








text \<open>
  The lock discipline of lines 102-104: only a goroutine between \<open>mu.Lock()\<close> and
  \<open>mu.Unlock()\<close> changes \<open>matches\<close>, and no two goroutines are there at once.
\<close>

lemma matches_changed_by_holder:
  "goroutine_step P cs sh g = Some (sh', g') \<Longrightarrow> matches sh' \<noteq> matches sh \<Longrightarrow>
   holding g \<and> holding g' \<and> mu sh = mu sh'"
  by (auto simp: goroutine_step_def holding_def split: pc.splits if_splits prod.splits)

lemma mutual_exclusion:
  assumes "cs \<or> lower_stable P pat"
    and "run P cs sched (initial pat ps) = (sh, gs)"
    and "i < length gs" "j < length gs" "holding (gs ! i)" "holding (gs ! j)"
  shows "i = j"
proof -
  from run_preserves[OF invariant_initial assms(1), of sched ps] assms(2)
  have "invariant P cs pat (sh, gs)" by simp
  from invariantD(2)[OF this] assms(3-6) show ?thesis by simp
qed

section \<open>Properties of \<open>Search\<close>\<close>

lemma WalkDir_visit_fn:
  "WalkDir P rootDir (visit_fn fo do) \<lparr>stdout = [], spawned = []\<rparr> =
     (None, \<lparr>stdout = walk_lines P rootDir, spawned = tested_paths fo do (yielded P rootDir)\<rparr>)"
proof (cases "Lstat P rootDir")
  case (Inl e)
  then show ?thesis
    by (simp add: WalkDir_def visit_fn_Failed walk_lines_def yielded_def tested_paths_simps
        del: visit_fn.simps)
next
  case (Inr d)
  then show ?thesis
    by (simp add: WalkDir_def walkDir_visit_fn walk_lines_def yielded_def)
qed

lemma Search_eq:
  "Search P sched rootDir pat fo do cs =
     (walk_lines P rootDir,
      if all_finished (snd (run P cs sched (initial pat (tested_paths fo do (yielded P rootDir)))))
      then Some (matches (fst (run P cs sched
                   (initial pat (tested_paths fo do (yielded P rootDir))))), None)
      else None)"
  by (simp add: Search_def WalkDir_visit_fn split: prod.splits)

lemma initial_gpaths: "map gpath (snd (initial pat ps)) = ps"
  by (simp add: initial_def comp_def)

lemma Search_returns:
  assumes ret: "Search P sched rootDir pat fo do cs = (out, Some (found, err))"
    and stable: "cs \<or> lower_stable P pat"
  shows "out = walk_lines P rootDir" and "err = None"
    and "mset found =
      mset (filter (match_test P cs pat) (tested_paths fo do (yielded P rootDir)))"
proof -
  let ?s = "run P cs sched (initial pat (tested_paths fo do (yielded P rootDir)))"
  from ret show "out = walk_lines P rootDir" and "err = None"
    by (simp_all add: Search_eq split: if_splits)
  from ret have fin: "all_finished (snd ?s)" and found: "found = matches (fst ?s)"
    by (simp_all add: Search_eq split: if_splits)
  have "invariant P cs pat ?s"
    by (rule run_preserves[OF invariant_initial stable])
  then have "invariant P cs pat (fst ?s, snd ?s)" by simp
  from finished_matches[OF this fin]
  have "mset (matches (fst ?s)) = mset (filter (match_test P cs pat) (map gpath (snd ?s)))" .
  also have "map gpath (snd ?s) = tested_paths fo do (yielded P rootDir)"
    by (simp add: run_gpaths initial_gpaths)
  finally show "mset found =
      mset (filter (match_test P cs pat) (tested_paths fo do (yielded P rootDir)))"
    by (simp add: found)
qed


lemma tested_paths_iff:
  "p \<in> set (tested_paths fo do es) \<longleftrightarrow> (\<exists>e. (p, e) \<in> set es \<and> tested fo do e)"
  by (auto simp: tested_paths_def image_iff)

section \<open>The claims about \<open>Search\<close> and \<open>main\<close>\<close>

lemma run_no_goroutines: "run P cs sched (sh, []) = (sh, [])"
  by (induction sched) (simp_all add: run_def sys_step_def)

lemma Search_missing_root:
  assumes "Lstat P rootDir = Inl e"
  shows "Search P sched rootDir pat fo do cs = ([skipping rootDir e], Some ([], None))"
  using assms
  by (simp add: Search_eq yielded_def walk_lines_def tested_paths_simps initial_def
      run_no_goroutines all_finished_def)

text \<open>
  C1. The claim does not hold of the code. For a root path that \<open>Lstat\<close> does not find,
  \<open>WalkDir\<close> hands the error to the function literal, which prints a \<open>Skipping:\<close> line
  and returns \<open>nil\<close>; so \<open>Search\<close> returns no error, and \<open>main\<close> prints
  \<open>No path matches the pattern\<close> and ends with status 0, under every schedule.
\<close>

theorem main_missing_root:
  "main demo sched [''search'', ''missing'', ''*.go''] =
     ([SkippingUnhandled (PathError ''lstat'' ''missing'' (Errno 2)), NoPathMatches], Exit 0)"
proof -
  have pf: "ParseFlags [''search'', ''missing'', ''*.go''] =
      Parsed \<lparr>isFileOnly = False, isDirOnly = False, isCaseSensitive = False,
              directory = ''missing'', pattern = ''*.go''\<rparr>"
    by code_simp
  have ls: "Lstat demo ''missing'' = Inl (PathError ''lstat'' ''missing'' (Errno 2))"
    by code_simp
  have sk: "skipping ''missing'' (PathError ''lstat'' ''missing'' (Errno 2)) =
      SkippingUnhandled (PathError ''lstat'' ''missing'' (Errno 2))"
    by code_simp
  show ?thesis
    by (simp add: main_def pf Search_missing_root[OF ls] sk print_results_def)
qed



text \<open>
  C3. The goroutines the walk starts are those for the entries of the whole tree that
  pass the type filter: the filter is applied to every entry of every directory and
  never keeps the walk out of a directory. Under \<open>fileOnly\<close> a directory gets no match
  test, and each file in it, at any depth, still gets one.
\<close>

theorem type_filter_never_prunes:
  assumes "Lstat P rootDir = Inr d"
  shows "spawned (snd (WalkDir P rootDir (visit_fn fileOnly dirOnly) \<lparr>stdout = [], spawned = []\<rparr>))
           = tested_paths fileOnly dirOnly (entries_of P rootDir d)
       \<and> (\<forall>(p, e) \<in> set (entries_of P rootDir d).
            tested fileOnly dirOnly e \<longrightarrow>
            p \<in> set (spawned (snd (WalkDir P rootDir (visit_fn fileOnly dirOnly)
                                     \<lparr>stdout = [], spawned = []\<rparr>))))"
proof -
  from assms have y: "yielded P rootDir = entries_of P rootDir d" by (simp add: yielded_def)
  have sp: "spawned (snd (WalkDir P rootDir (visit_fn fileOnly dirOnly) \<lparr>stdout = [], spawned = []\<rparr>))
      = tested_paths fileOnly dirOnly (entries_of P rootDir d)"
    by (simp add: WalkDir_visit_fn y)
  show ?thesis
    unfolding sp by (auto simp: tested_paths_iff)
qed

text \<open>
  The theorem on the sample tree under \<open>fileOnly\<close>: the directories \<open>root\<close> and
  \<open>root/sub\<close> get no match test, the file \<open>root/sub/a.txt\<close> does.
\<close>

theorem type_filter_never_prunes_witness:
  "Lstat demo ''root'' = Inr demo_tree
   \<and> spawned (snd (WalkDir demo ''root'' (visit_fn True False) \<lparr>stdout = [], spawned = []\<rparr>))
       = tested_paths True False (entries_of demo ''root'' demo_tree)
   \<and> tested_paths True False (entries_of demo ''root'' demo_tree)
       = [''root/B.TXT'', ''root/a.txt'', ''root/sub/a.txt'']
   \<and> (''root/sub'', Dir ''sub'' None [File ''a.txt'']) \<in> set (entries_of demo ''root'' demo_tree)"
proof -
  have h1: "Lstat demo ''root'' = Inr demo_tree" by code_simp
  have h2: "tested_paths True False (entries_of demo ''root'' demo_tree)
       = [''root/B.TXT'', ''root/a.txt'', ''root/sub/a.txt'']" by code_simp
  have h3: "(''root/sub'', Dir ''sub'' None [File ''a.txt''])
       \<in> set (entries_of demo ''root'' demo_tree)" by code_simp
  from type_filter_never_prunes[OF h1, of True False] h1 h2 h3 show ?thesis by blast
qed



text \<open>
  C5. When \<open>filepath.Match\<close> rejects the pattern on the base name of a path with an
  error, that path is not among the matches \<open>Search\<close> returns, the error \<open>Search\<close>
  returns is \<open>nil\<close>, and nothing is printed but the lines of the walk.
\<close>

theorem malformed_pattern_matches_nothing:
  assumes "Search P sched rootDir pat fileOnly dirOnly caseSensitive = (out, Some (found, err))"
    and "caseSensitive \<or> lower_stable P pat"
    and "snd (Match P (if caseSensitive then pat else ToLower P pat)
                      (if caseSensitive then Base P p else ToLower P (Base P p))) \<noteq> None"
  shows "p \<notin> set found \<and> err = None \<and> out = walk_lines P rootDir"
proof -
  from assms(3) have "\<not> match_test P caseSensitive pat p"
    by (auto simp: match_test_def seen_pattern_def baseName_def split: prod.splits)
  moreover from Search_returns(3)[OF assms(1,2)]
  have "set found =
      set (filter (match_test P caseSensitive pat)
             (tested_paths fileOnly dirOnly (yielded P rootDir)))"
    by (rule mset_eq_setD)
  ultimately have "p \<notin> set found" by simp
  with Search_returns(1,2)[OF assms(1,2)] show ?thesis by simp
qed

text \<open>
  The theorem on the sample tree for the pattern \<open>[a\<close>, a bracket that is never closed,
  in a case-sensitive search of the files.
\<close>

theorem malformed_pattern_matches_nothing_witness:
  "Search demo [0,1,2,2,1,0,0,1,2,0,1,2] ''root'' ''[a'' True False True =
       ([SkippingAccessDenied ''root/locked''], Some ([], None))
   \<and> snd (Match demo ''[a'' (Base demo ''root/a.txt'')) \<noteq> None
   \<and> ''root/a.txt'' \<notin> set ([] :: string list)
   \<and> [SkippingAccessDenied ''root/locked''] = walk_lines demo ''root''"
proof -
  have h1: "Search demo [0,1,2,2,1,0,0,1,2,0,1,2] ''root'' ''[a'' True False True =
       ([SkippingAccessDenied ''root/locked''], Some ([], None))"
    by code_simp
  have h3: "snd (Match demo ''[a'' (Base demo ''root/a.txt'')) \<noteq> None" by code_simp
  have h2': "True \<or> lower_stable demo ''[a''" by simp
  from h3 have h3': "snd (Match demo (if True then ''[a'' else ToLower demo ''[a'')
      (if True then Base demo ''root/a.txt'' else ToLower demo (Base demo ''root/a.txt''))) \<noteq> None"
    by simp
  from malformed_pattern_matches_nothing[OF h1 h2' h3'] h1 h3 show ?thesis by blast
qed

text \<open>
  C8. The claim does not hold of the code. In a search that is not case-sensitive every
  goroutine assigns to the variable \<open>pattern\<close> it shares with the others, without
  holding the mutex. Here, in the search of the files of the sample tree for \<open>A.TXT\<close>,
  the first goroutine has taken its two first steps: the shared pattern has changed to
  \<open>a.txt\<close>, the mutex is free, and the two other goroutines have yet to read the
  pattern.
\<close>

theorem pattern_written_without_lock:
  "run demo False [0, 0] (initial ''A.TXT'' (tested_paths True False (yielded demo ''root''))) =
     (\<lparr>pattern_var = ''a.txt'', matches = [], mu = False\<rparr>,
      [\<lparr>gpath = ''root/B.TXT'', gpc = Ready\<rparr>,
       \<lparr>gpath = ''root/a.txt'', gpc = Start\<rparr>,
       \<lparr>gpath = ''root/sub/a.txt'', gpc = Start\<rparr>])"
  by code_simp



end
